theory Spec2Isabelle
  imports Main "HOL-Library.AList" "HOL-Library.List_Lexorder" "HOL-Library.Product_Lexorder"
    "HOL-Library.Multiset" "HOL-Library.Sublist"
begin

section \<open>Strings\<close>

text \<open>
  A Python \<^verbatim>\<open>str\<close> is a sequence of Unicode code points; a code point is a natural
  number here. Python compares strings lexicographically by code point, which is the order
  of \<^theory_text>\<open>List_Lexorder\<close>; tuples are compared lexicographically too
  (\<^theory_text>\<open>Product_Lexorder\<close>).
\<close>

type_synonym str = "nat list"

definition lit :: "string \<Rightarrow> str" where
  "lit s = map of_char s"

text \<open>Iterating over a \<^verbatim>\<open>str\<close>, and indexing it, yields its one-character strings.\<close>

definition chars :: "str \<Rightarrow> str list" where
  "chars s = map (\<lambda>c. [c]) s"

text \<open>
  \<^verbatim>\<open>str.lower\<close> belongs to the Python runtime and its case mapping to the Unicode
  character database. The trie operations take it as the parameter \<open>lw\<close>, so that the
  general theorems hold whatever the case mapping is. The closed examples use
  \<open>py_lower\<close>, which follows CPython's \<^verbatim>\<open>str.lower\<close> on the code points below 128,
  on U+0130 and on the three sigmas U+03A3, U+03C2 and U+03C3: every code point is
  replaced by its full lower-case mapping, except that a capital sigma becomes the final
  sigma U+03C2 when a cased letter precedes it and none follows it (case-ignorable
  characters skipped on both sides), and U+03C3 otherwise. Other code points are left as
  they are: the examples do not use them.
\<close>

definition is_cased :: "nat \<Rightarrow> bool" where
  "is_cased c = (65 \<le> c \<and> c \<le> 90 \<or> 97 \<le> c \<and> c \<le> 122 \<or> c = 0x130 \<or>
     c = 0x3A3 \<or> c = 0x3C2 \<or> c = 0x3C3)"

definition is_case_ignorable :: "nat \<Rightarrow> bool" where
  "is_case_ignorable c = (c = 0x27 \<or> c = 0x2E \<or> c = 0x3A \<or> c = 0x5E \<or> c = 0x60 \<or> c = 0x307)"

definition to_lower_full :: "nat \<Rightarrow> str" where
  "to_lower_full c =
     (if 65 \<le> c \<and> c \<le> 90 then [c + 32]
      else if c = 0x130 then [0x69, 0x307]
      else [c])"

fun cased_before :: "str \<Rightarrow> bool" where
  "cased_before [] = False"
| "cased_before (c # cs) = (if is_case_ignorable c then cased_before cs else is_cased c)"

fun uncased_after :: "str \<Rightarrow> bool" where
  "uncased_after [] = True"
| "uncased_after (c # cs) = (if is_case_ignorable c then uncased_after cs else \<not> is_cased c)"

text \<open>\<open>lower_from bef s\<close>: the characters \<open>s\<close> still to map, \<open>bef\<close> those before them,
  nearest first.\<close>

fun lower_from :: "str \<Rightarrow> str \<Rightarrow> str" where
  "lower_from bef [] = []"
| "lower_from bef (c # cs) =
     (if c = 0x3A3
      then [if cased_before bef \<and> uncased_after cs then 0x3C2 else 0x3C3]
      else to_lower_full c) @ lower_from (c # bef) cs"

definition py_lower :: "str \<Rightarrow> str" where
  "py_lower s = lower_from [] s"

section \<open>ContactTrie\<close>

text \<open>
  The contact dictionary \<^verbatim>\<open>{'name': .., 'phone': .., 'email': ..}\<close> is a record. A
  \<^verbatim>\<open>TrieNode\<close> has a dictionary of children and an optional contact; the dictionary is an
  association list in insertion order, updated with \<open>AList.update\<close> (a new key goes to
  the end, as in a Python dict) and \<open>AList.delete\<close>. Its keys are strings, since a
  character of a Python string is a string.
\<close>

record contact =
  name :: str
  phone :: str
  email :: str

datatype trie = TrieNode (children: "(str \<times> trie) list") (contact: "contact option")

definition empty_trie :: trie where
  "empty_trie = TrieNode [] None"

text \<open>\<^verbatim>\<open>insert\<close>: the loop walks down the characters of \<^verbatim>\<open>name.lower()\<close>, creating the
  missing nodes, and stores the contact at the node it reaches.\<close>

fun insert_chars :: "trie \<Rightarrow> str list \<Rightarrow> contact \<Rightarrow> trie" where
  "insert_chars (TrieNode ch ct) [] c = TrieNode ch (Some c)"
| "insert_chars (TrieNode ch ct) (k # ks) c =
     (let child = (case map_of ch k of None \<Rightarrow> TrieNode [] None | Some n \<Rightarrow> n)
      in TrieNode (AList.update k (insert_chars child ks c) ch) ct)"

definition trie_insert :: "(str \<Rightarrow> str) \<Rightarrow> trie \<Rightarrow> str \<Rightarrow> str \<Rightarrow> str \<Rightarrow> trie" where
  "trie_insert lw t nm ph em =
     insert_chars t (chars (lw nm)) \<lparr>name = nm, phone = ph, email = em\<rparr>"

text \<open>The walk that \<^verbatim>\<open>search\<close> and \<^verbatim>\<open>search_prefix\<close> both start with: \<open>None\<close> when a
  character has no child.\<close>

fun walk :: "trie \<Rightarrow> str list \<Rightarrow> trie option" where
  "walk t [] = Some t"
| "walk (TrieNode ch ct) (k # ks) =
     (case map_of ch k of None \<Rightarrow> None | Some n \<Rightarrow> walk n ks)"

definition trie_search :: "(str \<Rightarrow> str) \<Rightarrow> trie \<Rightarrow> str \<Rightarrow> contact option" where
  "trie_search lw t nm =
     (case walk t (chars (lw nm)) of None \<Rightarrow> None | Some n \<Rightarrow> contact n)"

text \<open>
  \<^verbatim>\<open>_delete(node, name, index)\<close>: the second argument is \<^verbatim>\<open>name[index:]\<close>. Each
  character is lower-cased on its own, \<^verbatim>\<open>name[index].lower()\<close>, and looked up among the
  children. The result is the node after the call and the returned flag.
\<close>

fun delete_rec :: "(str \<Rightarrow> str) \<Rightarrow> trie \<Rightarrow> str \<Rightarrow> trie \<times> bool" where
  "delete_rec lw (TrieNode ch ct) [] =
     (if ct = None then (TrieNode ch ct, False) else (TrieNode ch None, ch = []))"
| "delete_rec lw (TrieNode ch ct) (x # xs) =
     (let char = lw [x] in
      case map_of ch char of
        None \<Rightarrow> (TrieNode ch ct, False)
      | Some child \<Rightarrow>
          (case delete_rec lw child xs of
             (child', should_delete) \<Rightarrow>
               if should_delete
               then (let ch' = AList.delete char ch in (TrieNode ch' ct, ch' = [] \<and> ct = None))
               else (TrieNode (AList.update char child' ch) ct, False)))"

definition trie_delete :: "(str \<Rightarrow> str) \<Rightarrow> trie \<Rightarrow> str \<Rightarrow> trie" where
  "trie_delete lw t nm = fst (delete_rec lw t nm)"

text \<open>\<^verbatim>\<open>_traverse\<close>: the node's contact, then the children in ascending key order.\<close>

function traverse :: "trie \<Rightarrow> contact list" where
  "traverse (TrieNode ch ct) =
     (case ct of None \<Rightarrow> [] | Some c \<Rightarrow> [c]) @
     concat (map (\<lambda>k. case map_of ch k of None \<Rightarrow> [] | Some n \<Rightarrow> traverse n)
       (sort (map fst ch)))"
  by pat_completeness auto
termination
proof (relation "measure size")
  show "wf (measure size)" by simp
next
  fix ch :: "(str \<times> trie) list" and ct :: "contact option" and k n
  assume "map_of ch k = Some n"
  then have "(k, n) \<in> set ch" by (rule map_of_SomeD)
  then have "size n \<le> size_list (size_prod (\<lambda>x. 0) size) ch"
    by (rule size_list_estimation') simp
  then show "(n, TrieNode ch ct) \<in> measure size" by simp
qed

definition get_all_sorted :: "trie \<Rightarrow> contact list" where
  "get_all_sorted t = traverse t"

definition search_prefix :: "(str \<Rightarrow> str) \<Rightarrow> trie \<Rightarrow> str \<Rightarrow> contact list" where
  "search_prefix lw t p =
     (case walk t (chars (lw p)) of None \<Rightarrow> [] | Some n \<Rightarrow> traverse n)"

section \<open>heapq\<close>

text \<open>
  The two queues keep their tuples in a list ordered by the functions of Python's
  \<^verbatim>\<open>heapq\<close>, which are modelled as the library defines them: \<^verbatim>\<open>_siftdown\<close> moves the new
  item towards the root, \<^verbatim>\<open>_siftup\<close> moves the smaller child up until a leaf and sifts
  the item back down. The queues call them with positions inside the list only.
\<close>

function siftdown_loop :: "'a::linorder list \<Rightarrow> nat \<Rightarrow> nat \<Rightarrow> 'a \<Rightarrow> 'a list" where
  "siftdown_loop heap startpos pos newitem =
     (if pos > startpos
      then (let parentpos = (pos - 1) div 2; parent = heap ! parentpos
            in if newitem < parent
               then siftdown_loop (heap[pos := parent]) startpos parentpos newitem
               else heap[pos := newitem])
      else heap[pos := newitem])"
  by pat_completeness auto
termination
  by (relation "measure (\<lambda>(heap, startpos, pos, newitem). pos)") auto

declare siftdown_loop.simps [simp del]

definition siftdown :: "'a::linorder list \<Rightarrow> nat \<Rightarrow> nat \<Rightarrow> 'a list" where
  "siftdown heap startpos pos = siftdown_loop heap startpos pos (heap ! pos)"

function siftup_loop :: "'a::linorder list \<Rightarrow> nat \<Rightarrow> nat \<Rightarrow> 'a list \<times> nat" where
  "siftup_loop heap endpos pos =
     (let childpos = 2 * pos + 1 in
      if childpos < endpos
      then (let rightpos = childpos + 1;
                childpos' = (if rightpos < endpos \<and> \<not> heap ! childpos < heap ! rightpos
                             then rightpos else childpos)
            in siftup_loop (heap[pos := heap ! childpos']) endpos childpos')
      else (heap, pos))"
  by pat_completeness auto
termination
  by (relation "measure (\<lambda>(heap, endpos, pos). endpos - pos)") (auto simp: Let_def)

declare siftup_loop.simps [simp del]

definition siftup :: "'a::linorder list \<Rightarrow> nat \<Rightarrow> 'a list" where
  "siftup heap pos =
     (let endpos = length heap; startpos = pos; newitem = heap ! pos in
      case siftup_loop heap endpos pos of
        (heap', pos') \<Rightarrow> siftdown (heap'[pos' := newitem]) startpos pos')"

definition heappush :: "'a::linorder list \<Rightarrow> 'a \<Rightarrow> 'a list" where
  "heappush heap item = siftdown (heap @ [item]) 0 (length heap)"

definition heapify :: "'a::linorder list \<Rightarrow> 'a list" where
  "heapify x = fold (\<lambda>i h. siftup h i) (rev [0 ..< length x div 2]) x"

section \<open>ReminderQueue and ProjectQueue\<close>

text \<open>A reminder is the tuple \<^verbatim>\<open>(timestamp, text)\<close>, a project the tuple
  \<^verbatim>\<open>(start_date, name, end_date)\<close>. \<^verbatim>\<open>sorted(.., key=lambda x: x[0])\<close> is a stable sort on
  the first component, as \<open>sort_key fst\<close> is.\<close>

type_synonym reminder_queue = "(int \<times> str) list"
type_synonym project_queue = "(str \<times> str \<times> str) list"

definition reminder_add :: "reminder_queue \<Rightarrow> str \<Rightarrow> int \<Rightarrow> reminder_queue" where
  "reminder_add heap txt timestamp = heappush heap (timestamp, txt)"

definition reminder_get_all :: "reminder_queue \<Rightarrow> (int \<times> str) list" where
  "reminder_get_all heap = sort_key fst heap"

definition reminder_remove :: "reminder_queue \<Rightarrow> str \<Rightarrow> int \<Rightarrow> reminder_queue" where
  "reminder_remove heap txt timestamp =
     heapify (filter (\<lambda>(t, tx). \<not> (t = timestamp \<and> tx = txt)) heap)"

definition project_add :: "project_queue \<Rightarrow> str \<Rightarrow> str \<Rightarrow> str \<Rightarrow> project_queue" where
  "project_add ps nm start_date end_date = heappush ps (start_date, nm, end_date)"

definition project_get_all :: "project_queue \<Rightarrow> (str \<times> str \<times> str) list" where
  "project_get_all ps = sort_key fst ps"

definition project_remove :: "project_queue \<Rightarrow> str \<Rightarrow> str \<Rightarrow> project_queue" where
  "project_remove ps nm start_date =
     heapify (filter (\<lambda>(s, n, e). \<not> (n = nm \<and> s = start_date)) ps)"

section \<open>DataManager\<close>

record manager =
  contacts :: trie
  reminders :: reminder_queue
  projects :: project_queue

definition init_manager :: manager where
  "init_manager = \<lparr>contacts = empty_trie, reminders = [], projects = []\<rparr>"

record reminder =
  r_text :: str
  r_time :: int

record project =
  p_name :: str
  p_start :: str
  p_end :: str

record state =
  st_contacts :: "contact list"
  st_reminders :: "reminder list"
  st_projects :: "project list"

definition get_data :: "manager \<Rightarrow> state" where
  "get_data m =
     \<lparr>st_contacts = get_all_sorted (contacts m),
      st_reminders = map (\<lambda>(ts, t). \<lparr>r_text = t, r_time = ts\<rparr>) (reminder_get_all (reminders m)),
      st_projects =
        map (\<lambda>(s, n, e). \<lparr>p_name = n, p_start = s, p_end = e\<rparr>) (project_get_all (projects m))\<rparr>"

section \<open>RequestHandler.do_POST\<close>

text \<open>
  The decoded body is a dictionary; its entries, when present, have the types the
  interface gives them (strings, and an integer timestamp). \<^verbatim>\<open>data.get('action')\<close> is
  \<open>None\<close> for a missing key, and \<^verbatim>\<open>data['name']\<close> raises \<^verbatim>\<open>KeyError\<close>. The arguments of
  a call are evaluated from left to right before the call, so the first missing key
  raises.
\<close>

record request =
  action :: "str option"
  rq_name :: "str option"
  rq_phone :: "str option"
  rq_email :: "str option"
  rq_text :: "str option"
  rq_timestamp :: "int option"
  rq_start :: "str option"
  rq_end :: "str option"

datatype error = KeyError string

definition getitem :: "'a option \<Rightarrow> string \<Rightarrow> (error + 'a)" where
  "getitem v k = (case v of None \<Rightarrow> Inl (KeyError k) | Some x \<Rightarrow> Inr x)"

definition bind :: "(error + 'a) \<Rightarrow> ('a \<Rightarrow> error + 'b) \<Rightarrow> (error + 'b)" where
  "bind r f = (case r of Inl e \<Rightarrow> Inl e | Inr x \<Rightarrow> f x)"

text \<open>The \<^verbatim>\<open>if\<close>/\<^verbatim>\<open>elif\<close> chain of \<^verbatim>\<open>do_POST\<close>: the manager after the branch taken, or the
  error raised.\<close>

definition dispatch :: "(str \<Rightarrow> str) \<Rightarrow> manager \<Rightarrow> request \<Rightarrow> (error + manager)" where
  "dispatch lw m data =
     (let act = action data in
      if act = Some (lit ''add_contact'') then
        bind (getitem (rq_name data) ''name'') (\<lambda>nm.
        bind (getitem (rq_phone data) ''phone'') (\<lambda>ph.
        bind (getitem (rq_email data) ''email'') (\<lambda>em.
        Inr (m\<lparr>contacts := trie_insert lw (contacts m) nm ph em\<rparr>))))
      else if act = Some (lit ''delete_contact'') then
        bind (getitem (rq_name data) ''name'') (\<lambda>nm.
        Inr (m\<lparr>contacts := trie_delete lw (contacts m) nm\<rparr>))
      else if act = Some (lit ''add_reminder'') then
        bind (getitem (rq_text data) ''text'') (\<lambda>tx.
        bind (getitem (rq_timestamp data) ''timestamp'') (\<lambda>ts.
        Inr (m\<lparr>reminders := reminder_add (reminders m) tx ts\<rparr>)))
      else if act = Some (lit ''delete_reminder'') then
        bind (getitem (rq_text data) ''text'') (\<lambda>tx.
        bind (getitem (rq_timestamp data) ''timestamp'') (\<lambda>ts.
        Inr (m\<lparr>reminders := reminder_remove (reminders m) tx ts\<rparr>)))
      else if act = Some (lit ''add_project'') then
        bind (getitem (rq_name data) ''name'') (\<lambda>nm.
        bind (getitem (rq_start data) ''start'') (\<lambda>s.
        bind (getitem (rq_end data) ''end'') (\<lambda>e.
        Inr (m\<lparr>projects := project_add (projects m) nm s e\<rparr>))))
      else if act = Some (lit ''delete_project'') then
        bind (getitem (rq_name data) ''name'') (\<lambda>nm.
        bind (getitem (rq_start data) ''start'') (\<lambda>s.
        Inr (m\<lparr>projects := project_remove (projects m) nm s\<rparr>)))
      else Inr m)"

text \<open>\<^verbatim>\<open>do_POST\<close>: the manager after the request, and the response (the full state) or the
  error that ended the request before any response.\<close>

definition do_POST :: "(str \<Rightarrow> str) \<Rightarrow> manager \<Rightarrow> request \<Rightarrow> manager \<times> (error + state)" where
  "do_POST lw m data =
     (case dispatch lw m data of
        Inl e \<Rightarrow> (m, Inl e)
      | Inr m' \<Rightarrow> (m', Inr (get_data m')))"

text \<open>The manager after a sequence of requests, from the manager the module creates.\<close>

definition run :: "(str \<Rightarrow> str) \<Rightarrow> request list \<Rightarrow> manager" where
  "run lw rs = fold (\<lambda>data m. fst (do_POST lw m data)) rs init_manager"

text \<open>What the branches of \<^verbatim>\<open>do_POST\<close> compare the tag with, and the keys each branch reads.\<close>

definition recognized :: "str option \<Rightarrow> bool" where
  "recognized act =
     (act = Some (lit ''add_contact'') \<or> act = Some (lit ''delete_contact'') \<or>
      act = Some (lit ''add_reminder'') \<or> act = Some (lit ''delete_reminder'') \<or>
      act = Some (lit ''add_project'') \<or> act = Some (lit ''delete_project''))"

definition lacks_required :: "request \<Rightarrow> bool" where
  "lacks_required data =
     (action data = Some (lit ''add_contact'') \<and>
        (rq_name data = None \<or> rq_phone data = None \<or> rq_email data = None) \<or>
      action data = Some (lit ''delete_contact'') \<and> rq_name data = None \<or>
      action data = Some (lit ''add_reminder'') \<and>
        (rq_text data = None \<or> rq_timestamp data = None) \<or>
      action data = Some (lit ''delete_reminder'') \<and>
        (rq_text data = None \<or> rq_timestamp data = None) \<or>
      action data = Some (lit ''add_project'') \<and>
        (rq_name data = None \<or> rq_start data = None \<or> rq_end data = None) \<or>
      action data = Some (lit ''delete_project'') \<and>
        (rq_name data = None \<or> rq_start data = None))"

text \<open>The empty dictionary, for the examples.\<close>

definition req0 :: request where
  "req0 = \<lparr>action = None, rq_name = None, rq_phone = None, rq_email = None, rq_text = None,
     rq_timestamp = None, rq_start = None, rq_end = None\<rparr>"

section \<open>Requests and data of the examples\<close>

text \<open>The dictionaries the browser page sends for the operations on contacts and
  reminders, and the contacts and reminders of the examples.\<close>

definition add_contact_request :: "contact \<Rightarrow> request" where
  "add_contact_request c =
     req0\<lparr>action := Some (lit ''add_contact''), rq_name := Some (name c),
          rq_phone := Some (phone c), rq_email := Some (email c)\<rparr>"

definition delete_contact_request :: "str \<Rightarrow> request" where
  "delete_contact_request nm =
     req0\<lparr>action := Some (lit ''delete_contact''), rq_name := Some nm\<rparr>"

definition Ann :: contact where
  "Ann = \<lparr>name = lit ''Ann'', phone = lit ''555'', email = lit ''ann@x.com''\<rparr>"

definition ANN :: contact where
  "ANN = \<lparr>name = lit ''ANN'', phone = lit ''777'', email = lit ''a@y.org''\<rparr>"

definition add_reminder_request :: "str \<Rightarrow> int \<Rightarrow> request" where
  "add_reminder_request tx ts =
     req0\<lparr>action := Some (lit ''add_reminder''), rq_text := Some tx, rq_timestamp := Some ts\<rparr>"

definition delete_reminder_request :: "str \<Rightarrow> int \<Rightarrow> request" where
  "delete_reminder_request tx ts =
     req0\<lparr>action := Some (lit ''delete_reminder''), rq_text := Some tx, rq_timestamp := Some ts\<rparr>"

definition Alice :: contact where
  "Alice = \<lparr>name = lit ''Alice'', phone = lit ''1'', email = lit ''alice@x.com''\<rparr>"

definition Alan :: contact where
  "Alan = \<lparr>name = lit ''Alan'', phone = lit ''2'', email = lit ''alan@x.com''\<rparr>"

definition Bob :: contact where
  "Bob = \<lparr>name = lit ''Bob'', phone = lit ''3'', email = lit ''bob@x.com''\<rparr>"

text \<open>The name "A\<Sigma>" (A, capital sigma) and the contact "a\<sigma>".\<close>

definition A_Sigma :: str where
  "A_Sigma = [0x41, 0x3A3]"

definition contact_A_Sigma :: contact where
  "contact_A_Sigma = \<lparr>name = A_Sigma, phone = lit ''555'', email = lit ''as@x.com''\<rparr>"

definition contact_a_sigma :: contact where
  "contact_a_sigma = \<lparr>name = [0x61, 0x3C3], phone = lit ''555'', email = lit ''as@x.com''\<rparr>"

definition call_client :: reminder where
  "call_client = \<lparr>r_text = lit ''Call client'', r_time = 1700000000\<rparr>"

definition reminder_view :: "int \<times> str \<Rightarrow> reminder" where
  "reminder_view = (\<lambda>(ts, t). \<lparr>r_text = t, r_time = ts\<rparr>)"

section \<open>Auxiliary notions for the proofs\<close>

text \<open>The contact stored at the end of a path, and the invariant of the tries the
  operations build: the keys of a node are distinct one-character strings, and a contact
  stored at the end of the path \<open>p\<close> has the lower-cased name \<open>p\<close>.\<close>

definition contact_at :: "trie \<Rightarrow> str list \<Rightarrow> contact option" where
  "contact_at t ks = (case walk t ks of None \<Rightarrow> None | Some n \<Rightarrow> contact n)"

fun wf_trie :: "(str \<Rightarrow> str) \<Rightarrow> str \<Rightarrow> trie \<Rightarrow> bool" where
  "wf_trie lw p (TrieNode ch ct) =
     (distinct (map fst ch) \<and>
      (\<forall>(k, n) \<in> set ch. length k = 1 \<and> wf_trie lw (p @ k) n) \<and>
      (case ct of None \<Rightarrow> True | Some c \<Rightarrow> lw (name c) = p))"

text \<open>A name is lower-cased character by character when the lower-casings of its
  characters, each taken alone, are the characters of its lower-casing: then \<^verbatim>\<open>_delete\<close>
  follows the path of \<^verbatim>\<open>insert\<close> and \<^verbatim>\<open>search\<close>.\<close>

definition charwise :: "(str \<Rightarrow> str) \<Rightarrow> str \<Rightarrow> bool" where
  "charwise lw nm = (map (\<lambda>x. lw [x]) nm = chars (lw nm))"

section \<open>The dispatcher\<close>

lemma getitem_None [simp]: "getitem None k = Inl (KeyError k)"
  by (simp add: getitem_def)

lemma getitem_Some [simp]: "getitem (Some x) k = Inr x"
  by (simp add: getitem_def)

lemma bind_Inl [simp]: "bind (Inl e) f = Inl e"
  by (simp add: bind_def)

lemma bind_Inr [simp]: "bind (Inr x) f = f x"
  by (simp add: bind_def)

lemma bind_getitem_fault:
  "(\<And>x. v = Some x \<Longrightarrow> \<exists>k. f x = Inl (KeyError k)) \<Longrightarrow>
   \<exists>k. bind (getitem v s) f = Inl (KeyError k)"
  by (cases v) auto

lemma dispatch_add_contact:
  "action data = Some (lit ''add_contact'') \<Longrightarrow> dispatch lw m data =
     bind (getitem (rq_name data) ''name'') (\<lambda>nm.
     bind (getitem (rq_phone data) ''phone'') (\<lambda>ph.
     bind (getitem (rq_email data) ''email'') (\<lambda>em.
     Inr (m\<lparr>contacts := trie_insert lw (contacts m) nm ph em\<rparr>))))"
  by (simp add: dispatch_def)

lemma dispatch_delete_contact:
  "action data = Some (lit ''delete_contact'') \<Longrightarrow> dispatch lw m data =
     bind (getitem (rq_name data) ''name'') (\<lambda>nm.
     Inr (m\<lparr>contacts := trie_delete lw (contacts m) nm\<rparr>))"
  by (simp add: dispatch_def lit_def)

lemma dispatch_add_reminder:
  "action data = Some (lit ''add_reminder'') \<Longrightarrow> dispatch lw m data =
     bind (getitem (rq_text data) ''text'') (\<lambda>tx.
     bind (getitem (rq_timestamp data) ''timestamp'') (\<lambda>ts.
     Inr (m\<lparr>reminders := reminder_add (reminders m) tx ts\<rparr>)))"
  by (simp add: dispatch_def lit_def)

lemma dispatch_delete_reminder:
  "action data = Some (lit ''delete_reminder'') \<Longrightarrow> dispatch lw m data =
     bind (getitem (rq_text data) ''text'') (\<lambda>tx.
     bind (getitem (rq_timestamp data) ''timestamp'') (\<lambda>ts.
     Inr (m\<lparr>reminders := reminder_remove (reminders m) tx ts\<rparr>)))"
  by (simp add: dispatch_def lit_def)

lemma dispatch_add_project:
  "action data = Some (lit ''add_project'') \<Longrightarrow> dispatch lw m data =
     bind (getitem (rq_name data) ''name'') (\<lambda>nm.
     bind (getitem (rq_start data) ''start'') (\<lambda>s.
     bind (getitem (rq_end data) ''end'') (\<lambda>e.
     Inr (m\<lparr>projects := project_add (projects m) nm s e\<rparr>))))"
  by (simp add: dispatch_def lit_def)

lemma dispatch_delete_project:
  "action data = Some (lit ''delete_project'') \<Longrightarrow> dispatch lw m data =
     bind (getitem (rq_name data) ''name'') (\<lambda>nm.
     bind (getitem (rq_start data) ''start'') (\<lambda>s.
     Inr (m\<lparr>projects := project_remove (projects m) nm s\<rparr>)))"
  by (simp add: dispatch_def lit_def)

lemma dispatch_other:
  "\<not> recognized (action data) \<Longrightarrow> dispatch lw m data = Inr m"
  by (simp add: dispatch_def recognized_def)

lemma dispatch_lacks:
  assumes "lacks_required data"
  shows "\<exists>k. dispatch lw m data = Inl (KeyError k)"
  using assms unfolding lacks_required_def
  by (elim disjE conjE)
     (simp_all add: dispatch_add_contact dispatch_delete_contact dispatch_add_reminder
        dispatch_delete_reminder dispatch_add_project dispatch_delete_project
        bind_getitem_fault)

text \<open>
  C7. A request with one of the six tags that lacks a key its branch reads ends in a
  \<^verbatim>\<open>KeyError\<close>: no response is produced, and the manager after the request is the
  manager before it.
\<close>

theorem missing_field_faults:
  assumes "lacks_required data"
  shows "\<exists>k. do_POST lw m data = (m, Inl (KeyError k))"
proof -
  from dispatch_lacks [OF assms] obtain k where "dispatch lw m data = Inl (KeyError k)"
    by blast
  then show ?thesis by (simp add: do_POST_def)
qed

theorem missing_field_faults_witness:
  "lacks_required (req0\<lparr>action := Some (lit ''add_contact''), rq_phone := Some (lit ''555'')\<rparr>) \<and>
   do_POST py_lower init_manager
       (req0\<lparr>action := Some (lit ''add_contact''), rq_phone := Some (lit ''555'')\<rparr>)
     = (init_manager, Inl (KeyError ''name''))"
proof -
  have h: "lacks_required
      (req0\<lparr>action := Some (lit ''add_contact''), rq_phone := Some (lit ''555'')\<rparr>)"
    by (simp add: lacks_required_def req0_def)
  have "do_POST py_lower init_manager
       (req0\<lparr>action := Some (lit ''add_contact''), rq_phone := Some (lit ''555'')\<rparr>)
     = (init_manager, Inl (KeyError ''name''))"
    using missing_field_faults [OF h, of py_lower init_manager]
    by (auto simp add: do_POST_def dispatch_add_contact req0_def)
  with h show ?thesis by simp
qed

text \<open>
  C8. A request whose tag is none of the six (or that has no tag) changes no container,
  and the response is the full state, which is the state before the request.
\<close>

theorem unrecognized_tag_noop:
  assumes "\<not> recognized (action data)"
  shows "do_POST lw m data = (m, Inr (get_data m))"
  using assms by (simp add: do_POST_def dispatch_other)

theorem unrecognized_tag_noop_witness:
  "\<not> recognized (action (req0\<lparr>action := Some (lit ''rename_contact''),
        rq_name := Some (lit ''Jo'')\<rparr>)) \<and>
   do_POST py_lower init_manager
       (req0\<lparr>action := Some (lit ''rename_contact''), rq_name := Some (lit ''Jo'')\<rparr>)
     = (init_manager, Inr (get_data init_manager))"
proof -
  have h: "\<not> recognized (action (req0\<lparr>action := Some (lit ''rename_contact''),
        rq_name := Some (lit ''Jo'')\<rparr>))"
    by (simp add: recognized_def req0_def lit_def)
  show ?thesis using h unrecognized_tag_noop [OF h, of py_lower init_manager] by simp
qed

section \<open>The trie: lookup after insertion\<close>

lemma trie_search_contact_at: "trie_search lw t nm = contact_at t (chars (lw nm))"
  by (simp add: trie_search_def contact_at_def)

lemma contact_at_Nil [simp]: "contact_at t [] = contact t"
  by (simp add: contact_at_def)

lemma contact_at_Cons [simp]:
  "contact_at (TrieNode ch ct) (k # ks) =
     (case map_of ch k of None \<Rightarrow> None | Some n \<Rightarrow> contact_at n ks)"
  by (simp add: contact_at_def split: option.split)

lemma contact_at_leaf [simp]: "contact_at (TrieNode [] None) ks = None"
  by (cases ks) simp_all

lemma contact_at_insert_chars:
  "contact_at (insert_chars t ks c) ks' = (if ks' = ks then Some c else contact_at t ks')"
proof (induction ks arbitrary: t ks')
  case Nil
  then show ?case by (cases t; cases ks') simp_all
next
  case (Cons k ks)
  show ?case
  proof (cases t)
    case (TrieNode ch ct)
    show ?thesis
    proof (cases ks')
      case Nil
      with TrieNode show ?thesis by (simp add: Let_def)
    next
      case (Cons k' ks'')
      with TrieNode Cons.IH show ?thesis
        by (auto simp: Let_def update_conv' split: option.split)
    qed
  qed
qed

lemma chars_inj [simp]: "chars a = chars b \<longleftrightarrow> a = b"
  by (auto simp: chars_def inj_on_def dest!: map_inj_on [rotated])

lemma search_insert:
  "trie_search lw (trie_insert lw t nm ph em) nm' =
     (if lw nm' = lw nm then Some \<lparr>name = nm, phone = ph, email = em\<rparr> else trie_search lw t nm')"
  by (simp add: trie_search_contact_at trie_insert_def contact_at_insert_chars)

lemma in_traverse:
  "c \<in> set (traverse (TrieNode ch ct)) \<longleftrightarrow>
     ct = Some c \<or> (\<exists>k n. map_of ch k = Some n \<and> c \<in> set (traverse n))"
proof -
  have "(\<exists>k\<in>fst ` set ch. c \<in> set (case map_of ch k of None \<Rightarrow> [] | Some n \<Rightarrow> traverse n))
        \<longleftrightarrow> (\<exists>k n. map_of ch k = Some n \<and> c \<in> set (traverse n))" (is "?L \<longleftrightarrow> ?R")
  proof
    assume ?L
    then obtain k where "c \<in> set (case map_of ch k of None \<Rightarrow> [] | Some n \<Rightarrow> traverse n)"
      by blast
    then show ?R by (cases "map_of ch k") auto
  next
    assume ?R
    then obtain k n where kn: "map_of ch k = Some n" "c \<in> set (traverse n)" by blast
    then have "k \<in> fst ` set ch" by (metis map_of_SomeD fst_conv image_eqI)
    with kn show ?L by force
  qed
  then show ?thesis by (cases ct) auto
qed

lemma traverse_iff_contact_at:
  "c \<in> set (traverse t) \<longleftrightarrow> (\<exists>ks. contact_at t ks = Some c)"
proof (induction t arbitrary: c rule: traverse.induct)
  case (1 ch ct)
  have IH: "\<And>k n c. map_of ch k = Some n \<Longrightarrow>
      c \<in> set (traverse n) \<longleftrightarrow> (\<exists>ks. contact_at n ks = Some c)"
    using 1 by (metis map_of_SomeD fst_conv image_eqI set_map set_sort)
  show ?case
  proof
    assume "c \<in> set (traverse (TrieNode ch ct))"
    then consider "ct = Some c" | k n where "map_of ch k = Some n" "c \<in> set (traverse n)"
      unfolding in_traverse by blast
    then show "\<exists>ks. contact_at (TrieNode ch ct) ks = Some c"
    proof cases
      case 1
      then have "contact_at (TrieNode ch ct) [] = Some c" by simp
      then show ?thesis by blast
    next
      case 2
      with IH obtain ks where "contact_at n ks = Some c" by blast
      with 2 have "contact_at (TrieNode ch ct) (k # ks) = Some c" by simp
      then show ?thesis by blast
    qed
  next
    assume "\<exists>ks. contact_at (TrieNode ch ct) ks = Some c"
    then obtain ks where ks: "contact_at (TrieNode ch ct) ks = Some c" by blast
    show "c \<in> set (traverse (TrieNode ch ct))"
    proof (cases ks)
      case Nil
      with ks show ?thesis by (simp add: in_traverse del: traverse.simps)
    next
      case (Cons k ks')
      with ks obtain n where "map_of ch k = Some n" "contact_at n ks' = Some c"
        by (auto split: option.splits)
      with IH show ?thesis unfolding in_traverse by blast
    qed
  qed
qed

section \<open>The trie: invariant\<close>

lemma in_set_updateD:
  "(k', v') \<in> set (AList.update k v al) \<Longrightarrow> (k' = k \<and> v' = v) \<or> (k', v') \<in> set al"
  by (induction al) (auto split: if_splits)

lemma in_set_deleteD:
  "(k', v') \<in> set (AList.delete k al) \<Longrightarrow> (k', v') \<in> set al \<and> k' \<noteq> k"
  by (auto simp: AList.delete_eq)

lemma wf_trie_leaf [simp]: "wf_trie lw p (TrieNode [] None)"
  by simp

lemma wf_trie_child:
  "wf_trie lw p (TrieNode ch ct) \<Longrightarrow> map_of ch k = Some n \<Longrightarrow> length k = 1 \<and> wf_trie lw (p @ k) n"
  by (auto dest!: map_of_SomeD)

lemma wf_insert_chars:
  "wf_trie lw p t \<Longrightarrow> lw (name c) = p @ concat ks \<Longrightarrow> \<forall>k\<in>set ks. length k = 1 \<Longrightarrow>
   wf_trie lw p (insert_chars t ks c)"
proof (induction ks arbitrary: t p)
  case Nil
  then show ?case by (cases t) simp
next
  case (Cons k ks)
  obtain ch ct where t: "t = TrieNode ch ct" by (cases t)
  define child where "child = (case map_of ch k of None \<Rightarrow> TrieNode [] None | Some n \<Rightarrow> n)"
  have "wf_trie lw (p @ k) child"
    using Cons.prems(1) t wf_trie_child [of lw p ch ct k]
    by (auto simp: child_def split: option.split)
  then have new: "wf_trie lw (p @ k) (insert_chars child ks c)"
    using Cons.prems by (intro Cons.IH) auto
  have k1: "length k = 1" using Cons.prems by simp
  have "wf_trie lw p (TrieNode (AList.update k (insert_chars child ks c) ch) ct)"
    using Cons.prems(1) new k1 unfolding t
    by (auto simp: distinct_update dest!: in_set_updateD)
  then show ?case by (simp add: t child_def Let_def)
qed

lemma concat_chars [simp]: "concat (chars s) = s"
  by (induction s) (simp_all add: chars_def)

lemma length_chars: "\<forall>k\<in>set (chars s). length k = 1"
  by (auto simp: chars_def)

lemma wf_trie_insert: "wf_trie lw [] t \<Longrightarrow> wf_trie lw [] (trie_insert lw t nm ph em)"
  unfolding trie_insert_def by (rule wf_insert_chars) (simp_all add: length_chars)

lemma wf_delete_rec: "wf_trie lw p t \<Longrightarrow> wf_trie lw p (fst (delete_rec lw t xs))"
proof (induction xs arbitrary: t p)
  case Nil
  then show ?case by (cases t) simp
next
  case (Cons x xs)
  obtain ch ct where t: "t = TrieNode ch ct" by (cases t)
  show ?case
  proof (cases "map_of ch (lw [x])")
    case None
    with Cons.prems t show ?thesis by simp
  next
    case (Some child)
    from wf_trie_child [OF Cons.prems [unfolded t] Some]
    have k1: "length (lw [x]) = 1" and wfc: "wf_trie lw (p @ lw [x]) child" by simp_all
    obtain child' sd where d: "delete_rec lw child xs = (child', sd)" by (cases "delete_rec lw child xs")
    from Cons.IH [OF wfc, of ] d have wfc': "wf_trie lw (p @ lw [x]) child'" by simp
    show ?thesis
    proof (cases sd)
      case True
      have "wf_trie lw p (TrieNode (AList.delete (lw [x]) ch) ct)"
        using Cons.prems unfolding t by (auto simp: distinct_delete dest!: in_set_deleteD)
      with True Some d show ?thesis by (simp add: t Let_def)
    next
      case False
      have "wf_trie lw p (TrieNode (AList.update (lw [x]) child' ch) ct)"
        using Cons.prems wfc' k1 unfolding t
        by (auto simp: distinct_update dest!: in_set_updateD)
      with False Some d show ?thesis by (simp add: t Let_def)
    qed
  qed
qed

lemma wf_trie_delete: "wf_trie lw [] t \<Longrightarrow> wf_trie lw [] (trie_delete lw t nm)"
  unfolding trie_delete_def by (rule wf_delete_rec)

lemma wf_empty_trie: "wf_trie lw [] empty_trie"
  by (simp add: empty_trie_def)

lemma wf_contact_at:
  "wf_trie lw p t \<Longrightarrow> contact_at t ks = Some c \<Longrightarrow> lw (name c) = p @ concat ks \<and> (\<forall>k\<in>set ks. length k = 1)"
proof (induction ks arbitrary: t p)
  case Nil
  then show ?case by (cases t) (auto split: option.splits)
next
  case (Cons k ks)
  obtain ch ct where t: "t = TrieNode ch ct" by (cases t)
  from Cons.prems(2) t obtain n where n: "map_of ch k = Some n" "contact_at n ks = Some c"
    by (auto split: option.splits)
  from wf_trie_child [OF Cons.prems(1) [unfolded t] n(1)]
  have "length k = 1" "wf_trie lw (p @ k) n" by simp_all
  with Cons.IH [OF this(2) n(2)] show ?case by simp
qed

lemma chars_concat: "\<forall>k\<in>set ks. length k = 1 \<Longrightarrow> chars (concat ks) = ks"
proof (induction ks)
  case Nil
  then show ?case by (simp add: chars_def)
next
  case (Cons k ks)
  then obtain a where "k = [a]" by (cases k) auto
  with Cons show ?case by (simp add: chars_def)
qed

lemma wf_traverse_iff_search:
  assumes "wf_trie lw [] t"
  shows "c \<in> set (traverse t) \<longleftrightarrow> trie_search lw t (name c) = Some c"
proof
  assume "c \<in> set (traverse t)"
  then obtain ks where ks: "contact_at t ks = Some c" by (auto simp: traverse_iff_contact_at)
  from wf_contact_at [OF assms ks] have "chars (lw (name c)) = ks"
    by (simp add: chars_concat)
  with ks show "trie_search lw t (name c) = Some c" by (simp add: trie_search_contact_at)
next
  assume "trie_search lw t (name c) = Some c"
  then show "c \<in> set (traverse t)"
    unfolding trie_search_contact_at traverse_iff_contact_at by blast
qed

lemma wf_traverse_prefix:
  "wf_trie lw p t \<Longrightarrow> c \<in> set (traverse t) \<Longrightarrow> prefix p (lw (name c))"
  by (auto simp: traverse_iff_contact_at dest!: wf_contact_at)

section \<open>The trie: order of the listing, prefix lookup\<close>

lemma append_less_append [simp]: "p @ u < p @ v \<longleftrightarrow> u < (v :: 'a::linorder list)"
  by (induction p) simp_all

lemma less_of_prefixes:
  fixes x y :: "'a::linorder list"
  assumes "prefix (p @ [a]) x" "prefix (p @ [b]) y" "a < b"
  shows "x < y"
proof -
  from assms obtain r r' where "x = p @ a # r" "y = p @ b # r'" by (auto simp: prefix_def)
  with assms(3) show ?thesis by simp
qed

lemma less_append_Cons: "p < p @ a # (r :: 'a::linorder list)"
  by (induction p) simp_all

lemma less_of_strict_prefix:
  fixes y :: "'a::linorder list"
  assumes "prefix (p @ [a]) y"
  shows "p < y"
proof -
  from assms obtain r where "y = p @ a # r" by (auto simp: prefix_def)
  then show ?thesis by (simp add: less_append_Cons)
qed

lemma sorted_wrt_concat_map:
  assumes "sorted_wrt (<) ks"
    and "\<And>k. k \<in> set ks \<Longrightarrow> sorted_wrt P (f k)"
    and "\<And>k k' x y. k \<in> set ks \<Longrightarrow> k' \<in> set ks \<Longrightarrow> k < k' \<Longrightarrow> x \<in> set (f k) \<Longrightarrow> y \<in> set (f k')
           \<Longrightarrow> P x y"
  shows "sorted_wrt P (concat (map f ks))"
  using assms
proof (induction ks)
  case Nil
  then show ?case by simp
next
  case (Cons k ks)
  have "sorted_wrt P (concat (map f ks))"
  proof (rule Cons.IH)
    show "sorted_wrt (<) ks" using Cons.prems(1) by simp
  next
    fix k' assume "k' \<in> set ks"
    then show "sorted_wrt P (f k')" using Cons.prems(2) by simp
  next
    fix k1 k2 x y
    assume "k1 \<in> set ks" "k2 \<in> set ks" "k1 < k2" "x \<in> set (f k1)" "y \<in> set (f k2)"
    then show "P x y" using Cons.prems(3) [of k1 k2 x y] by simp
  qed
  moreover have "sorted_wrt P (f k)" using Cons.prems(2) by simp
  moreover have "P x y" if "x \<in> set (f k)" "y \<in> set (concat (map f ks))" for x y
  proof -
    from that(2) obtain k' where k': "k' \<in> set ks" "y \<in> set (f k')" by auto
    with Cons.prems(1) have "k < k'" by simp
    with k' that(1) show ?thesis using Cons.prems(3) [of k k' x y] by simp
  qed
  ultimately show ?case by (simp add: sorted_wrt_append del: set_concat)
qed

lemma singleton_key: "length k = Suc 0 \<Longrightarrow> \<exists>a. k = [a]"
  by (cases k) auto

lemma wf_traverse_child_prefix:
  assumes "wf_trie lw p (TrieNode ch ct)"
    and "y \<in> set (case map_of ch k of None \<Rightarrow> [] | Some n \<Rightarrow> traverse n)"
  shows "\<exists>a. k = [a] \<and> prefix (p @ [a]) (lw (name y))"
proof -
  from assms(2) obtain n where n: "map_of ch k = Some n" "y \<in> set (traverse n)"
    by (cases "map_of ch k") auto
  from wf_trie_child [OF assms(1) n(1)] have "length k = 1" "wf_trie lw (p @ k) n" by simp_all
  with wf_traverse_prefix [OF this(2) n(2)] show ?thesis
    by (auto dest: singleton_key)
qed

lemma traverse_sorted:
  "wf_trie lw p t \<Longrightarrow> sorted_wrt (\<lambda>c d. lw (name c) < lw (name d)) (traverse t)"
proof (induction t arbitrary: p rule: traverse.induct)
  case (1 ch ct)
  let ?P = "\<lambda>c d. lw (name c) < lw (name d)"
  let ?f = "\<lambda>k. case map_of ch k of None \<Rightarrow> [] | Some n \<Rightarrow> traverse n"
  let ?ks = "sort (map fst ch)"
  note wf = "1.prems"
  have ks: "sorted_wrt (<) ?ks"
    using wf by (simp add: strict_sorted_iff)
  have each: "sorted_wrt ?P (?f k)" if "k \<in> set ?ks" for k
  proof (cases "map_of ch k")
    case None
    then show ?thesis by simp
  next
    case (Some n)
    from wf_trie_child [OF wf Some] have "wf_trie lw (p @ k) n" by simp
    from "1.IH" [OF that Some this] Some show ?thesis by simp
  qed
  have cross: "?P x y" if "k < k'" "x \<in> set (?f k)" "y \<in> set (?f k')" for k k' x y
  proof -
    from wf_traverse_child_prefix [OF wf that(2)] obtain a
      where a: "k = [a]" "prefix (p @ [a]) (lw (name x))" by blast
    from wf_traverse_child_prefix [OF wf that(3)] obtain b
      where b: "k' = [b]" "prefix (p @ [b]) (lw (name y))" by blast
    from that(1) a(1) b(1) have "a < b" by simp
    with a b show ?thesis by (rule_tac less_of_prefixes)
  qed
  have rest: "sorted_wrt ?P (concat (map ?f ?ks))"
    by (rule sorted_wrt_concat_map [OF ks each cross])
  show ?case
  proof (cases ct)
    case None
    with rest show ?thesis by simp
  next
    case (Some c)
    with wf have c: "lw (name c) = p" by simp
    have "?P c y" if "y \<in> set (concat (map ?f ?ks))" for y
    proof -
      from that obtain k where "y \<in> set (?f k)" by auto
      from wf_traverse_child_prefix [OF wf this] obtain a
        where "prefix (p @ [a]) (lw (name y))" by blast
      then show ?thesis unfolding c by (rule less_of_strict_prefix)
    qed
    with rest Some show ?thesis by (simp del: set_concat)
  qed
qed

lemma concat_map_single:
  assumes "distinct ks" and "\<And>k. k \<in> set ks \<Longrightarrow> k \<noteq> k0 \<Longrightarrow> g k = []"
  shows "concat (map g ks) = (if k0 \<in> set ks then g k0 else [])"
  using assms by (induction ks) auto

lemma prefix_append_Cons_same:
  "prefix (p @ a # s) y \<Longrightarrow> prefix (p @ [b]) y \<Longrightarrow> a = b"
  by (auto simp: prefix_def append_eq_append_conv2 Cons_eq_append_conv)

lemma walk_traverse_filter:
  "wf_trie lw p t \<Longrightarrow>
   (case walk t (chars s) of None \<Rightarrow> [] | Some n \<Rightarrow> traverse n) =
     filter (\<lambda>c. prefix (p @ s) (lw (name c))) (traverse t)"
proof (induction s arbitrary: t p)
  case Nil
  have "filter (\<lambda>c. prefix p (lw (name c))) (traverse t) = traverse t"
    using wf_traverse_prefix [OF Nil] by (simp add: filter_id_conv del: traverse.simps)
  then show ?case by (simp add: chars_def)
next
  case (Cons a s)
  obtain ch ct where t: "t = TrieNode ch ct" by (cases t)
  note wf = Cons.prems [unfolded t]
  let ?Q = "\<lambda>c. prefix (p @ a # s) (lw (name c))"
  let ?f = "\<lambda>k. case map_of ch k of None \<Rightarrow> [] | Some n \<Rightarrow> traverse n"
  let ?ks = "sort (map fst ch)"
  have own: "filter ?Q (case ct of None \<Rightarrow> [] | Some c \<Rightarrow> [c]) = []"
    using wf by (cases ct) auto
  have other: "filter ?Q (?f k) = []" if "k \<noteq> [a]" for k
  proof -
    have "\<not> ?Q y" if y: "y \<in> set (?f k)" for y
    proof
      assume q: "?Q y"
      from wf_traverse_child_prefix [OF wf y] obtain b
        where b: "k = [b]" "prefix (p @ [b]) (lw (name y))" by blast
      from prefix_append_Cons_same [OF q b(2)] b(1) \<open>k \<noteq> [a]\<close> show False by simp
    qed
    then show ?thesis by (simp add: filter_empty_conv)
  qed
  have dist: "distinct ?ks" using wf by simp
  have "filter ?Q (traverse t) = concat (map (\<lambda>k. filter ?Q (?f k)) ?ks)"
    unfolding t by (simp add: own filter_concat comp_def)
  also have "\<dots> = (if [a] \<in> set ?ks then filter ?Q (?f [a]) else [])"
    by (rule concat_map_single [OF dist]) (rule other)
  also have "\<dots> = (case map_of ch [a] of None \<Rightarrow> [] | Some n \<Rightarrow> (case walk n (chars s) of None \<Rightarrow> [] | Some n' \<Rightarrow> traverse n'))"
  proof (cases "map_of ch [a]")
    case None
    then show ?thesis by simp
  next
    case (Some n)
    then have "[a] \<in> set ?ks" by (auto dest!: map_of_SomeD simp: rev_image_eqI)
    moreover from wf_trie_child [OF wf Some] have "wf_trie lw (p @ [a]) n" by simp
    from Cons.IH [OF this] have "(case walk n (chars s) of None \<Rightarrow> [] | Some n' \<Rightarrow> traverse n')
       = filter ?Q (traverse n)" by simp
    ultimately show ?thesis using Some by simp
  qed
  also have "\<dots> = (case walk t (chars (a # s)) of None \<Rightarrow> [] | Some n \<Rightarrow> traverse n)"
    by (simp add: t chars_def split: option.split)
  finally show ?case by simp
qed

lemma search_prefix_filter:
  "wf_trie lw [] t \<Longrightarrow>
   search_prefix lw t q = filter (\<lambda>c. prefix (lw q) (lw (name c))) (get_all_sorted t)"
  using walk_traverse_filter [of lw "[]" t "lw q"]
  by (simp add: search_prefix_def get_all_sorted_def)

section \<open>heapq keeps the items\<close>

lemma mset_move_hole:
  assumes "i < length h" "j < length h" "i \<noteq> j"
  shows "mset (h[i := h ! j, j := x]) = mset (h[i := x])"
  using assms by (simp add: mset_update nth_list_update)

lemma length_siftdown_loop [simp]: "length (siftdown_loop h s pos x) = length h"
proof (induction h s pos x rule: siftdown_loop.induct)
  case (1 heap startpos pos newitem)
  show ?case
    using "1.IH" by (subst siftdown_loop.simps) (simp add: Let_def)
qed

lemma mset_siftdown_loop:
  "pos < length h \<Longrightarrow> mset (siftdown_loop h s pos x) = mset (h[pos := x])"
proof (induction h s pos x rule: siftdown_loop.induct)
  case (1 heap startpos pos newitem)
  let ?pp = "(pos - 1) div 2"
  show ?case
  proof (cases "startpos < pos \<and> newitem < heap ! ?pp")
    case True
    then have pp: "?pp < pos" by auto
    with "1.prems" have "?pp < length heap" by simp
    have "siftdown_loop heap startpos pos newitem =
          siftdown_loop (heap[pos := heap ! ?pp]) startpos ?pp newitem"
      using True by (subst siftdown_loop.simps) (simp add: Let_def)
    also have "mset \<dots> = mset (heap[pos := heap ! ?pp, ?pp := newitem])"
      using True \<open>?pp < length heap\<close> by (intro "1.IH") simp_all
    also have "\<dots> = mset (heap[pos := newitem])"
      using "1.prems" \<open>?pp < length heap\<close> pp by (intro mset_move_hole) simp_all
    finally show ?thesis .
  next
    case False
    then show ?thesis by (subst siftdown_loop.simps) (auto simp: Let_def)
  qed
qed

lemma mset_siftdown: "pos < length h \<Longrightarrow> mset (siftdown h s pos) = mset h"
  by (simp add: siftdown_def mset_siftdown_loop)

lemma length_siftdown [simp]: "length (siftdown h s pos) = length h"
  by (simp add: siftdown_def)

lemma mset_heappush: "mset (heappush h x) = add_mset x (mset h)"
  by (simp add: heappush_def mset_siftdown)

lemma siftup_loop_inv_aux:
  "siftup_loop h e pos = (h', pos') \<Longrightarrow> e = length h \<Longrightarrow> pos < length h \<Longrightarrow>
   length h' = length h \<and> pos' < length h \<and> mset (h'[pos' := x]) = mset (h[pos := x])"
proof (induction h e pos arbitrary: h' pos' rule: siftup_loop.induct)
  case (1 heap endpos pos)
  let ?c = "2 * pos + 1"
  note e = \<open>endpos = length heap\<close>
  show ?case
  proof (cases "?c < endpos")
    case True
    define c' where "c' = (if ?c + 1 < endpos \<and> \<not> heap ! ?c < heap ! (?c + 1) then ?c + 1 else ?c)"
    have c': "c' < length heap" "pos < c'" using True e by (auto simp: c'_def)
    define h1 where "h1 = heap[pos := heap ! c']"
    have step: "siftup_loop heap endpos pos = siftup_loop h1 endpos c'"
      using True by (subst siftup_loop.simps) (simp add: Let_def c'_def h1_def)
    with "1.prems" have r: "siftup_loop h1 endpos c' = (h', pos')" by simp
    have "length h' = length h1 \<and> pos' < length h1 \<and> mset (h'[pos' := x]) = mset (h1[c' := x])"
      unfolding h1_def c'_def
    proof (rule "1.IH" [OF refl True refl refl])
      show "siftup_loop (heap[pos := heap ! (if ?c + 1 < endpos \<and> \<not> heap ! ?c < heap ! (?c + 1) then ?c + 1 else ?c)])
         endpos (if ?c + 1 < endpos \<and> \<not> heap ! ?c < heap ! (?c + 1) then ?c + 1 else ?c) = (h', pos')"
        using r unfolding h1_def c'_def .
      show "endpos = length (heap[pos := heap ! (if ?c + 1 < endpos \<and> \<not> heap ! ?c < heap ! (?c + 1) then ?c + 1 else ?c)])"
        using e by simp
      show "(if ?c + 1 < endpos \<and> \<not> heap ! ?c < heap ! (?c + 1) then ?c + 1 else ?c)
         < length (heap[pos := heap ! (if ?c + 1 < endpos \<and> \<not> heap ! ?c < heap ! (?c + 1) then ?c + 1 else ?c)])"
        using c'(1) unfolding c'_def by simp
    qed
    moreover have "mset (h1[c' := x]) = mset (heap[pos := x])"
      unfolding h1_def using c' "1.prems" by (intro mset_move_hole) simp_all
    ultimately show ?thesis by (simp add: h1_def)
  next
    case False
    then have "siftup_loop heap endpos pos = (heap, pos)"
      by (subst siftup_loop.simps) (simp add: Let_def)
    with "1.prems" show ?thesis by auto
  qed
qed

lemma siftup_loop_inv:
  "siftup_loop h (length h) pos = (h', pos') \<Longrightarrow> pos < length h \<Longrightarrow>
   length h' = length h \<and> pos' < length h \<and> mset (h'[pos' := x]) = mset (h[pos := x])"
  by (rule siftup_loop_inv_aux) simp_all

lemma siftup_props:
  assumes "pos < length h"
  shows "mset (siftup h pos) = mset h" and "length (siftup h pos) = length h"
proof -
  obtain h' pos' where r: "siftup_loop h (length h) pos = (h', pos')"
    by (cases "siftup_loop h (length h) pos")
  from siftup_loop_inv [OF r assms, of "h ! pos"]
  have inv: "length h' = length h" "pos' < length h" "mset (h'[pos' := h ! pos]) = mset h"
    by simp_all
  have s: "siftup h pos = siftdown (h'[pos' := h ! pos]) pos pos'"
    by (simp add: siftup_def r)
  show "mset (siftup h pos) = mset h"
    unfolding s using inv by (simp add: mset_siftdown)
  show "length (siftup h pos) = length h"
    unfolding s using inv by simp
qed

lemma fold_siftup_props:
  "\<forall>i\<in>set is. i < length h \<Longrightarrow>
   mset (fold (\<lambda>i h. siftup h i) is h) = mset h \<and> length (fold (\<lambda>i h. siftup h i) is h) = length h"
proof (induction "is" arbitrary: h)
  case Nil
  then show ?case by simp
next
  case (Cons i "is")
  then have i: "i < length h" by simp
  have "\<forall>j\<in>set is. j < length (siftup h i)"
    using Cons.prems by (simp add: siftup_props(2) [OF i])
  from Cons.IH [OF this] show ?case by (simp add: siftup_props [OF i])
qed

lemma mset_heapify: "mset (heapify x) = mset x"
  unfolding heapify_def by (rule fold_siftup_props [THEN conjunct1]) auto

section \<open>The states the requests reach\<close>

lemma dispatch_cases:
  assumes "dispatch lw m d = Inr m'"
  obtains (same) "m' = m"
  | (ins) nm ph em where "m' = m\<lparr>contacts := trie_insert lw (contacts m) nm ph em\<rparr>"
  | (del) nm where "m' = m\<lparr>contacts := trie_delete lw (contacts m) nm\<rparr>"
  | (radd) tx ts where "m' = m\<lparr>reminders := reminder_add (reminders m) tx ts\<rparr>"
  | (rrem) tx ts where "m' = m\<lparr>reminders := reminder_remove (reminders m) tx ts\<rparr>"
  | (padd) nm s e where "m' = m\<lparr>projects := project_add (projects m) nm s e\<rparr>"
  | (prem) nm s where "m' = m\<lparr>projects := project_remove (projects m) nm s\<rparr>"
proof (cases "recognized (action d)")
  case False
  with assms same show ?thesis by (simp add: dispatch_other)
next
  case True
  then consider
      "action d = Some (lit ''add_contact'')" | "action d = Some (lit ''delete_contact'')"
    | "action d = Some (lit ''add_reminder'')" | "action d = Some (lit ''delete_reminder'')"
    | "action d = Some (lit ''add_project'')" | "action d = Some (lit ''delete_project'')"
    unfolding recognized_def by blast
  then show ?thesis
  proof cases
    case 1
    with assms ins show ?thesis
      by (cases "rq_name d"; cases "rq_phone d"; cases "rq_email d")
         (auto simp: dispatch_add_contact)
  next
    case 2
    with assms del show ?thesis
      by (cases "rq_name d") (auto simp: dispatch_delete_contact)
  next
    case 3
    with assms radd show ?thesis
      by (cases "rq_text d"; cases "rq_timestamp d") (auto simp: dispatch_add_reminder)
  next
    case 4
    with assms rrem show ?thesis
      by (cases "rq_text d"; cases "rq_timestamp d") (auto simp: dispatch_delete_reminder)
  next
    case 5
    with assms padd show ?thesis
      by (cases "rq_name d"; cases "rq_start d"; cases "rq_end d")
         (auto simp: dispatch_add_project)
  next
    case 6
    with assms prem show ?thesis
      by (cases "rq_name d"; cases "rq_start d") (auto simp: dispatch_delete_project)
  qed
qed

lemma wf_dispatch:
  assumes "wf_trie lw [] (contacts m)" "dispatch lw m d = Inr m'"
  shows "wf_trie lw [] (contacts m')"
  using assms(2)
  by (cases rule: dispatch_cases) (simp_all add: assms(1) wf_trie_insert wf_trie_delete)

lemma wf_do_POST:
  assumes "wf_trie lw [] (contacts m)"
  shows "wf_trie lw [] (contacts (fst (do_POST lw m d)))"
proof (cases "dispatch lw m d")
  case (Inl e)
  with assms show ?thesis by (simp add: do_POST_def)
next
  case (Inr m')
  with wf_dispatch [OF assms Inr] show ?thesis by (simp add: do_POST_def)
qed

lemma run_Nil [simp]: "run lw [] = init_manager"
  by (simp add: run_def)

lemma run_snoc [simp]: "run lw (rs @ [d]) = fst (do_POST lw (run lw rs) d)"
  by (simp add: run_def)

lemma wf_run: "wf_trie lw [] (contacts (run lw rs))"
proof (induction rs rule: rev_induct)
  case Nil
  show ?case by (simp add: init_manager_def wf_empty_trie)
next
  case (snoc d rs)
  then show ?case by (simp add: wf_do_POST)
qed

lemma get_all_sorted_strict:
  "wf_trie lw [] t \<Longrightarrow> sorted_wrt (<) (map (\<lambda>c. lw (name c)) (get_all_sorted t))"
  unfolding get_all_sorted_def sorted_wrt_map by (rule traverse_sorted)

lemma st_reminders_time:
  "map r_time (st_reminders (get_data m)) = map fst (sort_key fst (reminders m))"
  by (simp add: get_data_def reminder_get_all_def comp_def case_prod_beta)

lemma st_projects_start:
  "map p_start (st_projects (get_data m)) = map fst (sort_key fst (projects m))"
  by (simp add: get_data_def project_get_all_def comp_def case_prod_beta)

text \<open>
  C2. After any sequence of requests (additions, deletions, and requests that fail or do
  nothing), the three sequences of the state are sorted: the contacts by lower-cased name,
  the reminders by time, the projects by start date.
\<close>

theorem state_sorted:
  "sorted (map (\<lambda>c. lw (name c)) (st_contacts (get_data (run lw rs)))) \<and>
   sorted (map r_time (st_reminders (get_data (run lw rs)))) \<and>
   sorted (map p_start (st_projects (get_data (run lw rs))))"
proof (intro conjI)
  have "sorted_wrt (<) (map (\<lambda>c. lw (name c)) (get_all_sorted (contacts (run lw rs))))"
    by (rule get_all_sorted_strict [OF wf_run])
  then show "sorted (map (\<lambda>c. lw (name c)) (st_contacts (get_data (run lw rs))))"
    by (simp add: get_data_def strict_sorted_imp_sorted)
  show "sorted (map r_time (st_reminders (get_data (run lw rs))))"
    by (simp add: st_reminders_time)
  show "sorted (map p_start (st_projects (get_data (run lw rs))))"
    by (simp add: st_projects_start)
qed

section \<open>Insertions and lookups in the reachable states\<close>

lemma dispatch_add_contact_request:
  "dispatch lw m (add_contact_request c) =
     Inr (m\<lparr>contacts := trie_insert lw (contacts m) (name c) (phone c) (email c)\<rparr>)"
  by (simp add: dispatch_add_contact add_contact_request_def req0_def)

lemma do_POST_add_contact_request:
  "do_POST lw m (add_contact_request c) =
     (m\<lparr>contacts := trie_insert lw (contacts m) (name c) (phone c) (email c)\<rparr>,
      Inr (get_data (m\<lparr>contacts := trie_insert lw (contacts m) (name c) (phone c) (email c)\<rparr>)))"
  by (simp add: do_POST_def dispatch_add_contact_request)

lemma search_insert_contact:
  fixes c :: contact
  shows "trie_search lw (trie_insert lw t (name c) (phone c) (email c)) nm =
     (if lw nm = lw (name c) then Some c else trie_search lw t nm)"
  by (simp add: search_insert)

lemma search_run_inserts:
  "trie_search lw (contacts (run lw (map add_contact_request cs))) nm =
     find (\<lambda>c. lw (name c) = lw nm) (rev cs)"
proof (induction cs rule: rev_induct)
  case Nil
  show ?case
    by (simp add: init_manager_def empty_trie_def trie_search_contact_at)
next
  case (snoc c cs)
  then show ?case
    by (auto simp: do_POST_add_contact_request search_insert_contact)
qed

lemma find_Some_mem: "find P xs = Some x \<Longrightarrow> x \<in> set xs"
  by (induction xs) (auto split: if_splits)

lemma listing_iff_search:
  "c \<in> set (get_all_sorted (contacts (run lw rs))) \<longleftrightarrow>
     trie_search lw (contacts (run lw rs)) (name c) = Some c"
  unfolding get_all_sorted_def by (rule wf_traverse_iff_search [OF wf_run])

lemma listing_distinct:
  "distinct (map (\<lambda>c. lw (name c)) (get_all_sorted (contacts (run lw rs))))"
  using get_all_sorted_strict [OF wf_run, of lw rs] by (simp add: strict_sorted_iff)

text \<open>
  C4. After any sequence of insertions the listing holds at most one contact for each
  lower-cased name; a lookup returns the record of the last insertion with that
  lower-cased name, and the listing holds exactly these records; an insertion request
  never ends in an error.
\<close>

theorem one_contact_per_name:
  "distinct (map (\<lambda>c. lw (name c)) (st_contacts (get_data (run lw (map add_contact_request cs))))) \<and>
   trie_search lw (contacts (run lw (map add_contact_request cs))) nm =
     find (\<lambda>c. lw (name c) = lw nm) (rev cs) \<and>
   set (st_contacts (get_data (run lw (map add_contact_request cs)))) =
     {c \<in> set cs. find (\<lambda>d. lw (name d) = lw (name c)) (rev cs) = Some c} \<and>
   snd (do_POST lw m (add_contact_request c)) =
     Inr (get_data (fst (do_POST lw m (add_contact_request c))))"
proof (intro conjI)
  let ?T = "contacts (run lw (map add_contact_request cs))"
  show "distinct (map (\<lambda>c. lw (name c)) (st_contacts (get_data (run lw (map add_contact_request cs)))))"
    using listing_distinct [of lw "map add_contact_request cs"] by (simp add: get_data_def)
  show "trie_search lw ?T nm = find (\<lambda>c. lw (name c) = lw nm) (rev cs)"
    by (rule search_run_inserts)
  have "d \<in> set (get_all_sorted ?T) \<longleftrightarrow>
        d \<in> set cs \<and> find (\<lambda>e. lw (name e) = lw (name d)) (rev cs) = Some d" for d
  proof -
    have "find (\<lambda>e. lw (name e) = lw (name d)) (rev cs) = Some d \<Longrightarrow> d \<in> set cs"
      by (auto dest: find_Some_mem)
    then show ?thesis
      unfolding listing_iff_search search_run_inserts by blast
  qed
  then show "set (st_contacts (get_data (run lw (map add_contact_request cs)))) =
     {c \<in> set cs. find (\<lambda>d. lw (name d) = lw (name c)) (rev cs) = Some c}"
    by (auto simp: get_data_def)
  show "snd (do_POST lw m (add_contact_request c)) =
     Inr (get_data (fst (do_POST lw m (add_contact_request c))))"
    by (simp add: do_POST_add_contact_request)
qed

theorem one_contact_per_name_witness:
  "st_contacts (get_data (run py_lower (map add_contact_request [Ann, ANN]))) = [ANN] \<and>
   trie_search py_lower (contacts (run py_lower (map add_contact_request [Ann, ANN]))) (lit ''ann'')
     = Some ANN"
proof -
  have a: "find (\<lambda>c. py_lower (name c) = py_lower (lit ''ann'')) (rev [Ann, ANN]) = Some ANN"
    by code_simp
  have b: "st_contacts (get_data (run py_lower (map add_contact_request [Ann, ANN]))) = [ANN]"
    by code_simp
  from one_contact_per_name [of py_lower "[Ann, ANN]" "lit ''ann''"] a b show ?thesis by simp
qed

text \<open>
  C3. In every state the requests reach, the prefix lookup returns the stored contacts
  whose lower-cased name starts with the lower-cased prefix, in the order of the listing,
  which is ascending in the lower-cased name; the stored contacts are those of the listing;
  and with the empty prefix (whose lower-casing is empty) the prefix lookup is the listing.
\<close>

theorem search_prefix_correct:
  "search_prefix lw (contacts (run lw rs)) q =
     filter (\<lambda>c. prefix (lw q) (lw (name c))) (get_all_sorted (contacts (run lw rs))) \<and>
   sorted (map (\<lambda>c. lw (name c)) (search_prefix lw (contacts (run lw rs)) q)) \<and>
   (c \<in> set (get_all_sorted (contacts (run lw rs))) \<longleftrightarrow>
      trie_search lw (contacts (run lw rs)) (name c) = Some c) \<and>
   (lw [] = [] \<longrightarrow>
      search_prefix lw (contacts (run lw rs)) [] = get_all_sorted (contacts (run lw rs)))"
proof -
  let ?T = "contacts (run lw rs)"
  have f: "search_prefix lw ?T q' =
     filter (\<lambda>c. prefix (lw q') (lw (name c))) (get_all_sorted ?T)" for q'
    by (rule search_prefix_filter [OF wf_run])
  have "sorted (map (\<lambda>c. lw (name c)) (get_all_sorted ?T))"
    using get_all_sorted_strict [OF wf_run, of lw rs] by (rule strict_sorted_imp_sorted)
  then have s: "sorted (map (\<lambda>c. lw (name c)) (search_prefix lw ?T q))"
    unfolding f by (rule sorted_filter)
  have e: "search_prefix lw ?T [] = get_all_sorted ?T" if "lw [] = []"
    unfolding f using that by simp
  from f s e listing_iff_search show ?thesis by blast
qed

theorem search_prefix_correct_witness:
  "py_lower [] = [] \<and>
   search_prefix py_lower (contacts (run py_lower (map add_contact_request [Alice, Alan, Bob])))
     (lit ''al'') = [Alan, Alice] \<and>
   search_prefix py_lower (contacts (run py_lower (map add_contact_request [Alice, Alan, Bob]))) []
     = get_all_sorted (contacts (run py_lower (map add_contact_request [Alice, Alan, Bob])))"
proof -
  have h: "py_lower [] = []" by (simp add: py_lower_def)
  have l: "get_all_sorted (contacts (run py_lower (map add_contact_request [Alice, Alan, Bob])))
     = [Alan, Alice, Bob]"
    by code_simp
  have f: "filter (\<lambda>c. prefix (py_lower (lit ''al'')) (py_lower (name c))) [Alan, Alice, Bob]
     = [Alan, Alice]"
    by code_simp
  from search_prefix_correct [of py_lower "map add_contact_request [Alice, Alan, Bob]" "lit ''al''"]
    l f
  have 1: "search_prefix py_lower (contacts (run py_lower (map add_contact_request [Alice, Alan, Bob])))
     (lit ''al'') = [Alan, Alice]" by simp
  from search_prefix_correct [of py_lower "map add_contact_request [Alice, Alan, Bob]" "[]"] h
  have 2: "search_prefix py_lower (contacts (run py_lower (map add_contact_request [Alice, Alan, Bob]))) []
     = get_all_sorted (contacts (run py_lower (map add_contact_request [Alice, Alan, Bob])))"
    by blast
  from h 1 2 show ?thesis by blast
qed

text \<open>
  C10. After the insertion of a contact, the exact lookup of any name with the same
  lower-cased form, the listing, and the prefix lookup of any prefix of the lower-cased
  name return the record with the name as it was passed; no other record of the listing
  has that lower-cased name.
\<close>

theorem insert_keeps_casing:
  assumes "lw nm = lw (name c)" and "prefix (lw q) (lw (name c))"
  shows "trie_search lw (contacts (run lw (rs @ [add_contact_request c]))) nm = Some c \<and>
    c \<in> set (get_all_sorted (contacts (run lw (rs @ [add_contact_request c])))) \<and>
    c \<in> set (search_prefix lw (contacts (run lw (rs @ [add_contact_request c]))) q) \<and>
    (\<forall>d \<in> set (get_all_sorted (contacts (run lw (rs @ [add_contact_request c])))).
       lw (name d) = lw (name c) \<longrightarrow> d = c)"
proof -
  let ?T = "contacts (run lw (rs @ [add_contact_request c]))"
  have T: "?T = trie_insert lw (contacts (run lw rs)) (name c) (phone c) (email c)"
    by (simp add: do_POST_add_contact_request)
  have s: "trie_search lw ?T nm' = Some c" if "lw nm' = lw (name c)" for nm'
    unfolding T using that by (simp add: search_insert_contact)
  then have 1: "trie_search lw ?T nm = Some c" using assms(1) by simp
  from s [of "name c"] have 2: "c \<in> set (get_all_sorted ?T)"
    unfolding listing_iff_search by simp
  have 3: "c \<in> set (search_prefix lw ?T q)"
    using 2 assms(2)
    unfolding search_prefix_filter [OF wf_run] by simp
  have 4: "d = c" if "d \<in> set (get_all_sorted ?T)" "lw (name d) = lw (name c)" for d
  proof -
    from that(1) have "trie_search lw ?T (name d) = Some d" unfolding listing_iff_search .
    with s [OF that(2)] show ?thesis by simp
  qed
  from 1 2 3 4 show ?thesis by blast
qed

theorem insert_keeps_casing_witness:
  "py_lower (lit ''ann'') = py_lower (name ANN) \<and> prefix (py_lower (lit ''An'')) (py_lower (name ANN)) \<and>
   trie_search py_lower (contacts (run py_lower ([add_contact_request Ann] @ [add_contact_request ANN])))
     (lit ''ann'') = Some ANN \<and> name ANN = lit ''ANN'' \<and>
   ANN \<in> set (search_prefix py_lower
     (contacts (run py_lower ([add_contact_request Ann] @ [add_contact_request ANN]))) (lit ''An''))"
proof -
  have h1: "py_lower (lit ''ann'') = py_lower (name ANN)" by code_simp
  have h2: "prefix (py_lower (lit ''An'')) (py_lower (name ANN))" by code_simp
  have n: "name ANN = lit ''ANN''" by (simp add: ANN_def)
  from insert_keeps_casing [OF h1 h2, of "[add_contact_request Ann]"] h1 h2 n
  show ?thesis by blast
qed

section \<open>Reminders\<close>

lemma do_POST_add_reminder_request:
  "do_POST lw m (add_reminder_request tx ts) =
     (m\<lparr>reminders := reminder_add (reminders m) tx ts\<rparr>,
      Inr (get_data (m\<lparr>reminders := reminder_add (reminders m) tx ts\<rparr>)))"
  by (simp add: do_POST_def dispatch_add_reminder add_reminder_request_def req0_def)

lemma do_POST_delete_reminder_request:
  "do_POST lw m (delete_reminder_request tx ts) =
     (m\<lparr>reminders := reminder_remove (reminders m) tx ts\<rparr>,
      Inr (get_data (m\<lparr>reminders := reminder_remove (reminders m) tx ts\<rparr>)))"
  by (simp add: do_POST_def dispatch_delete_reminder delete_reminder_request_def req0_def)

lemma mset_st_reminders:
  "mset (st_reminders (get_data m)) = image_mset reminder_view (mset (reminders m))"
  by (simp add: get_data_def reminder_get_all_def reminder_view_def)

lemma mset_reminder_add:
  "mset (reminder_add h tx ts) = add_mset (ts, tx) (mset h)"
  by (simp add: reminder_add_def mset_heappush)

lemma mset_reminder_remove:
  "image_mset reminder_view (mset (reminder_remove h tx ts)) =
     filter_mset (\<lambda>r. r \<noteq> \<lparr>r_text = tx, r_time = ts\<rparr>) (image_mset reminder_view (mset h))"
proof -
  have eq: "(\<lambda>(t, tx'). \<not> (t = ts \<and> tx' = tx)) =
      (\<lambda>x. reminder_view x \<noteq> \<lparr>r_text = tx, r_time = ts\<rparr>)"
    by (auto simp: reminder_view_def fun_eq_iff)
  have "image_mset reminder_view (mset (reminder_remove h tx ts)) =
      image_mset reminder_view
        (filter_mset (\<lambda>x. reminder_view x \<noteq> \<lparr>r_text = tx, r_time = ts\<rparr>) (mset h))"
    unfolding reminder_remove_def mset_heapify mset_filter eq ..
  also have "\<dots> =
      filter_mset (\<lambda>r. r \<noteq> \<lparr>r_text = tx, r_time = ts\<rparr>) (image_mset reminder_view (mset h))"
    by (rule image_mset_filter_mset_swap
        [of reminder_view "\<lambda>r. r \<noteq> \<lparr>r_text = tx, r_time = ts\<rparr>"])
  finally show ?thesis .
qed

text \<open>
  C5. Adding a reminder twice adds two entries to the reminders of the state; one
  deletion request for that text and time removes every entry equal to the pair and
  keeps every other entry, and it succeeds whatever the number of matches.
\<close>

theorem duplicate_reminders:
  "mset (st_reminders (get_data (fst (do_POST lw
      (fst (do_POST lw m (add_reminder_request tx ts))) (add_reminder_request tx ts))))) =
     mset (st_reminders (get_data m)) + {#\<lparr>r_text = tx, r_time = ts\<rparr>, \<lparr>r_text = tx, r_time = ts\<rparr>#} \<and>
   mset (st_reminders (get_data (fst (do_POST lw m (delete_reminder_request tx ts))))) =
     filter_mset (\<lambda>r. r \<noteq> \<lparr>r_text = tx, r_time = ts\<rparr>) (mset (st_reminders (get_data m))) \<and>
   snd (do_POST lw m (delete_reminder_request tx ts)) =
     Inr (get_data (fst (do_POST lw m (delete_reminder_request tx ts))))"
proof (intro conjI)
  show "mset (st_reminders (get_data (fst (do_POST lw
      (fst (do_POST lw m (add_reminder_request tx ts))) (add_reminder_request tx ts))))) =
     mset (st_reminders (get_data m)) + {#\<lparr>r_text = tx, r_time = ts\<rparr>, \<lparr>r_text = tx, r_time = ts\<rparr>#}"
    by (simp add: do_POST_add_reminder_request mset_st_reminders mset_reminder_add
        reminder_view_def)
  show "mset (st_reminders (get_data (fst (do_POST lw m (delete_reminder_request tx ts))))) =
     filter_mset (\<lambda>r. r \<noteq> \<lparr>r_text = tx, r_time = ts\<rparr>) (mset (st_reminders (get_data m)))"
    by (simp add: do_POST_delete_reminder_request mset_st_reminders mset_reminder_remove)
  show "snd (do_POST lw m (delete_reminder_request tx ts)) =
     Inr (get_data (fst (do_POST lw m (delete_reminder_request tx ts))))"
    by (simp add: do_POST_delete_reminder_request)
qed

lemma reminders_added_twice:
  "st_reminders (get_data (run py_lower
      [add_reminder_request (lit ''Call client'') 1700000000,
       add_reminder_request (lit ''Mail'') 1600000000,
       add_reminder_request (lit ''Call client'') 1700000000])) =
     [\<lparr>r_text = lit ''Mail'', r_time = 1600000000\<rparr>, call_client, call_client]"
  by code_simp

lemma reminders_deleted_once:
  "st_reminders (get_data (run py_lower
      [add_reminder_request (lit ''Call client'') 1700000000,
       add_reminder_request (lit ''Mail'') 1600000000,
       add_reminder_request (lit ''Call client'') 1700000000,
       delete_reminder_request (lit ''Call client'') 1700000000])) =
     [\<lparr>r_text = lit ''Mail'', r_time = 1600000000\<rparr>]"
  by code_simp

section \<open>What a deletion removes\<close>

lemma delete_rec_flag:
  "snd (delete_rec lw t xs) \<Longrightarrow> fst (delete_rec lw t xs) = TrieNode [] None"
proof (cases t)
  case (TrieNode ch ct)
  assume f: "snd (delete_rec lw t xs)"
  show ?thesis
  proof (cases xs)
    case Nil
    with f TrieNode show ?thesis by (simp split: if_splits)
  next
    case (Cons x xs')
    with f TrieNode show ?thesis
      by (simp add: Let_def split: option.splits prod.splits if_splits)
  qed
qed

lemma contact_at_delete_rec:
  "contact_at (fst (delete_rec lw t xs)) ks =
     (if ks = map (\<lambda>x. lw [x]) xs then None else contact_at t ks)"
proof (induction xs arbitrary: t ks)
  case Nil
  obtain ch ct where t: "t = TrieNode ch ct" by (cases t)
  show ?case by (cases ks) (simp_all add: t)
next
  case (Cons x xs)
  obtain ch ct where t: "t = TrieNode ch ct" by (cases t)
  show ?case
  proof (cases "map_of ch (lw [x])")
    case None
    then show ?thesis by (cases ks) (auto simp: t)
  next
    case (Some child)
    obtain child' sd where d: "delete_rec lw child xs = (child', sd)"
      by (cases "delete_rec lw child xs")
    from Cons.IH [of child] d
    have IH: "contact_at child' ks' =
        (if ks' = map (\<lambda>x. lw [x]) xs then None else contact_at child ks')" for ks'
      by simp
    show ?thesis
    proof (cases sd)
      case True
      with delete_rec_flag [of lw child xs] d have "child' = TrieNode [] None" by simp
      with IH have gone: "(if ks' = map (\<lambda>x. lw [x]) xs then None else contact_at child ks') = None"
        for ks' by (metis contact_at_leaf)
      show ?thesis
      proof (cases ks)
        case Nil
        with True Some d show ?thesis by (simp add: t Let_def)
      next
        case (Cons k ks')
        with True Some d gone [of ks'] show ?thesis
          by (auto simp: t Let_def delete_conv')
      qed
    next
      case False
      show ?thesis
      proof (cases ks)
        case Nil
        with False Some d show ?thesis by (simp add: t Let_def)
      next
        case (Cons k ks')
        with False Some d IH [of ks'] show ?thesis
          by (auto simp: t Let_def update_conv')
      qed
    qed
  qed
qed

lemma search_delete:
  "trie_search lw (trie_delete lw t nm) nm' =
     (if chars (lw nm') = map (\<lambda>x. lw [x]) nm then None else trie_search lw t nm')"
  by (simp add: trie_search_contact_at trie_delete_def contact_at_delete_rec)

lemma scenario_Jo:
  "st_contacts (get_data (run py_lower
      [add_contact_request \<lparr>name = lit ''Jo'', phone = lit ''555'', email = lit ''jo@x.com''\<rparr>]))
     = [\<lparr>name = lit ''Jo'', phone = lit ''555'', email = lit ''jo@x.com''\<rparr>] \<and>
   st_contacts (get_data (run py_lower
      [add_contact_request \<lparr>name = lit ''Jo'', phone = lit ''555'', email = lit ''jo@x.com''\<rparr>,
       delete_contact_request (lit ''JO'')])) = []"
  by code_simp

text \<open>For a name that is lower-cased character by character, deletion removes the contact
  of that key, touches no other key, and leaves a trie without that key as it is. Under
  \<open>py_lower\<close> every name without U+03A3 and U+0130 is such a name.\<close>

lemma delete_rec_absent:
  "contact_at t (map (\<lambda>x. lw [x]) xs) = None \<Longrightarrow> delete_rec lw t xs = (t, False)"
proof (induction xs arbitrary: t)
  case Nil
  then show ?case by (cases t) simp
next
  case (Cons x xs)
  obtain ch ct where t: "t = TrieNode ch ct" by (cases t)
  show ?case
  proof (cases "map_of ch (lw [x])")
    case None
    then show ?thesis by (simp add: t)
  next
    case (Some child)
    with Cons.prems have "contact_at child (map (\<lambda>x. lw [x]) xs) = None" by (simp add: t)
    then have "delete_rec lw child xs = (child, False)" by (rule Cons.IH)
    with Some show ?thesis by (simp add: t update_triv)
  qed
qed

lemma delete_charwise_removes:
  "charwise lw nm' \<Longrightarrow> lw nm' = lw nm \<Longrightarrow> trie_search lw (trie_delete lw t nm') nm = None"
  by (simp add: search_delete charwise_def)

lemma delete_charwise_frame:
  "charwise lw nm \<Longrightarrow> lw nm' \<noteq> lw nm \<Longrightarrow>
   trie_search lw (trie_delete lw t nm) nm' = trie_search lw t nm'"
  by (simp add: search_delete charwise_def)

lemma delete_charwise_absent:
  "charwise lw nm \<Longrightarrow> trie_search lw t nm = None \<Longrightarrow> trie_delete lw t nm = t"
  by (simp add: trie_delete_def trie_search_contact_at charwise_def delete_rec_absent)

lemma lower_from_no_sigma:
  "0x3A3 \<notin> set s \<Longrightarrow> lower_from bef s = concat (map to_lower_full s)"
  by (induction s arbitrary: bef) auto

lemma py_lower_charwise:
  assumes "0x3A3 \<notin> set nm" "0x130 \<notin> set nm"
  shows "charwise py_lower nm"
proof -
  have one: "\<forall>k \<in> set (map to_lower_full nm). length k = 1"
    using assms(2) by (auto simp: to_lower_full_def)
  have "map (\<lambda>x. py_lower [x]) nm = map to_lower_full nm"
    using assms(1) by (auto simp: py_lower_def)
  also have "\<dots> = chars (concat (map to_lower_full nm))"
    using one by (rule chars_concat [symmetric])
  also have "\<dots> = chars (py_lower nm)"
    using assms(1) by (simp add: py_lower_def lower_from_no_sigma)
  finally show ?thesis by (simp add: charwise_def)
qed

text \<open>
  C1. The claim is that deleting under a name equal, case-insensitively, to the inserted
  one removes the contact. \<^verbatim>\<open>insert\<close> lower-cases the whole name, \<^verbatim>\<open>_delete\<close> each
  character on its own. For the name "A\<Sigma>" the whole name lower-cases to "a\<sigma>" with
  a final sigma (U+03C2), the character \<Sigma> alone to U+03C3: after inserting the contact
  and deleting it under the very same name, the contact is still listed and found.
\<close>

theorem delete_misses_final_sigma:
  "py_lower A_Sigma = py_lower (name contact_A_Sigma) \<and>
   st_contacts (get_data (run py_lower
     [add_contact_request contact_A_Sigma, delete_contact_request A_Sigma])) = [contact_A_Sigma] \<and>
   trie_search py_lower (contacts (run py_lower
     [add_contact_request contact_A_Sigma, delete_contact_request A_Sigma])) A_Sigma
     = Some contact_A_Sigma"
  by code_simp

text \<open>
  C9. The claim is that a deletion leaves every contact with another lower-cased name in
  place. The contact "a\<sigma>" (U+03C3) has a lower-cased name different from that of
  "A\<Sigma>" (which ends in U+03C2), and deleting "A\<Sigma>" removes it.
\<close>

theorem delete_removes_other_contact:
  "py_lower (name contact_a_sigma) \<noteq> py_lower A_Sigma \<and>
   get_all_sorted (contacts (run py_lower [add_contact_request contact_a_sigma]))
     = [contact_a_sigma] \<and>
   get_all_sorted (contacts (run py_lower
     [add_contact_request contact_a_sigma, delete_contact_request A_Sigma])) = [] \<and>
   trie_search py_lower (contacts (run py_lower
     [add_contact_request contact_a_sigma, delete_contact_request A_Sigma])) (name contact_a_sigma)
     = None"
  by code_simp

text \<open>
  C6. The claim is that deleting a key that is absent leaves the state unchanged. With
  the contact "a\<sigma>" stored, no contact is stored under "A\<Sigma>" (the exact lookup
  finds none), and the deletion request for "A\<Sigma>" empties the contact list.
\<close>

theorem delete_absent_changes_state:
  "trie_search py_lower (contacts (run py_lower [add_contact_request contact_a_sigma])) A_Sigma = None \<and>
   st_contacts (get_data (run py_lower [add_contact_request contact_a_sigma])) = [contact_a_sigma] \<and>
   do_POST py_lower (run py_lower [add_contact_request contact_a_sigma])
       (delete_contact_request A_Sigma)
     = (init_manager, Inr \<lparr>st_contacts = [], st_reminders = [], st_projects = []\<rparr>)"
  by code_simp

end
